theory Spec2Isabelle
  imports Main "HOL-Library.Word"
begin

section \<open>Strings of the source language\<close>

text \<open>
  The program is TypeScript. Its strings are sequences of UTF-16 code units, and every
  string operation the handlers use (\<^verbatim>\<open>startsWith\<close>, \<^verbatim>\<open>includes\<close>, \<^verbatim>\<open>split\<close>,
  \<^verbatim>\<open>join\<close>, template literals) works on code units. A string is therefore a list of
  16-bit words. \<open>js\<close> writes the code units of an ASCII literal.
\<close>

type_synonym code_unit = "16 word"
type_synonym jsstring = "code_unit list"

definition js :: "string \<Rightarrow> jsstring" where
  "js s = map (\<lambda>c. of_nat (of_char c)) s"

text \<open>\<^verbatim>\<open>s.startsWith(p)\<close>: the first code units of \<open>s\<close> are those of \<open>p\<close>.\<close>

fun startsWith :: "jsstring \<Rightarrow> jsstring \<Rightarrow> bool" where
  "startsWith s [] = True"
| "startsWith [] (p # ps) = False"
| "startsWith (c # cs) (p # ps) = (c = p \<and> startsWith cs ps)"

text \<open>\<^verbatim>\<open>s.includes(q)\<close>: \<open>q\<close> occurs in \<open>s\<close> at some position; the empty \<open>q\<close> occurs
  in every string.\<close>

fun includesStr :: "jsstring \<Rightarrow> jsstring \<Rightarrow> bool" where
  "includesStr [] q = (q = [])"
| "includesStr (c # cs) q = (startsWith (c # cs) q \<or> includesStr cs q)"

text \<open>\<^verbatim>\<open>s.split("\n")\<close>: the pieces between line feeds (U+000A). The result is never
  empty: the empty string splits into one empty piece, and a trailing line feed leaves a
  last empty piece.\<close>

fun split_nl :: "jsstring \<Rightarrow> jsstring list" where
  "split_nl [] = [[]]"
| "split_nl (c # cs) =
     (if c = 0x0A then [] # split_nl cs
      else (case split_nl cs of
              [] \<Rightarrow> [[c]]
            | l # ls \<Rightarrow> (c # l) # ls))"

text \<open>\<^verbatim>\<open>xs.join(sep)\<close> on an array of strings.\<close>

fun join :: "jsstring \<Rightarrow> jsstring list \<Rightarrow> jsstring" where
  "join sep [] = []"
| "join sep [x] = x"
| "join sep (x # y # ys) = x @ sep @ join sep (y # ys)"

subsection \<open>Lower-casing\<close>

text \<open>
  \<^verbatim>\<open>toLowerCase\<close> is a built-in of the language, defined by ECMAScript through the
  Unicode default case conversion: every character is replaced by its lower-case mapping,
  and the locale-independent conditional mapping of SpecialCasing.txt applies, which is the
  rule \<^emph>\<open>Final_Sigma\<close>: GREEK CAPITAL LETTER SIGMA (U+03A3) becomes the final small sigma
  (U+03C2) when a cased letter comes before it (case-ignorable characters may stand in
  between) and no cased letter comes after it (again past case-ignorable characters);
  otherwise it becomes the small sigma (U+03C3).

  The Unicode tables are not embedded whole. The model covers Basic Latin and the basic
  Greek letters: on strings made of these code units it computes what the built-in
  computes. Any other code unit is passed through and counts as neither cased nor
  case-ignorable; what is proved below about lower-cased text either does not depend on
  the mapping or is stated for a query of Basic Latin.
\<close>

definition ascii_upper :: "code_unit \<Rightarrow> bool" where
  "ascii_upper c \<longleftrightarrow> 0x41 \<le> c \<and> c \<le> 0x5A"

definition ascii_lower :: "code_unit \<Rightarrow> bool" where
  "ascii_lower c \<longleftrightarrow> 0x61 \<le> c \<and> c \<le> 0x7A"

definition greek_upper :: "code_unit \<Rightarrow> bool" where
  "greek_upper c \<longleftrightarrow> 0x0391 \<le> c \<and> c \<le> 0x03A9 \<and> c \<noteq> 0x03A2"

definition greek_lower :: "code_unit \<Rightarrow> bool" where
  "greek_lower c \<longleftrightarrow> 0x03B1 \<le> c \<and> c \<le> 0x03C9"

definition cased :: "code_unit \<Rightarrow> bool" where
  "cased c \<longleftrightarrow> ascii_upper c \<or> ascii_lower c \<or> greek_upper c \<or> greek_lower c"

text \<open>Apostrophe, full stop, colon, circumflex and grave accent are the case-ignorable
  characters of Basic Latin (the colon in the versions of Unicode that give it the word
  break class MidLetter). They matter around a capital sigma only.\<close>

definition case_ignorable :: "code_unit \<Rightarrow> bool" where
  "case_ignorable c \<longleftrightarrow> c = 0x27 \<or> c = 0x2E \<or> c = 0x3A \<or> c = 0x5E \<or> c = 0x60"

text \<open>The unconditional mapping: in both blocks the small letter lies 32 above the
  capital one.\<close>

definition simple_lower :: "code_unit \<Rightarrow> code_unit" where
  "simple_lower c = (if ascii_upper c \<or> greek_upper c then c + 0x20 else c)"

text \<open>A cased letter is the first character that is not case-ignorable.\<close>

fun cased_next :: "jsstring \<Rightarrow> bool" where
  "cased_next [] = False"
| "cased_next (c # cs) = (if case_ignorable c then cased_next cs else cased c)"

text \<open>\<open>preceding\<close> holds the code units before the sigma, the nearest first;
  \<open>following\<close> those after it.\<close>

definition final_sigma :: "jsstring \<Rightarrow> jsstring \<Rightarrow> bool" where
  "final_sigma preceding following \<longleftrightarrow> cased_next preceding \<and> \<not> cased_next following"

fun lower_from :: "jsstring \<Rightarrow> jsstring \<Rightarrow> jsstring" where
  "lower_from preceding [] = []"
| "lower_from preceding (c # following) =
     (if c = 0x03A3 then (if final_sigma preceding following then 0x03C2 else 0x03C3)
      else simple_lower c) # lower_from (c # preceding) following"

definition toLowerCase :: "jsstring \<Rightarrow> jsstring" where
  "toLowerCase s = lower_from [] s"

section \<open>The site registry\<close>

text \<open>\<^verbatim>\<open>interface DocSite\<close>.\<close>

record DocSite =
  name :: jsstring
  baseUrl :: jsstring
  indexPath :: jsstring

text \<open>\<^verbatim>\<open>DOC_SITES\<close>: the own properties of the object literal, in the order they are
  written, which is the order \<^verbatim>\<open>Object.keys\<close> lists them in.\<close>

definition DOC_SITES :: "(jsstring \<times> DocSite) list" where
  "DOC_SITES =
    [(js ''module-federation'',
       \<lparr>name = js ''Module Federation'',
        baseUrl = js ''https://module-federation.io'',
        indexPath = js ''/llms.txt''\<rparr>),
     (js ''modernjs'',
       \<lparr>name = js ''Modern.js'',
        baseUrl = js ''https://modernjs.dev'',
        indexPath = js ''/llms.txt''\<rparr>),
     (js ''firebase'',
       \<lparr>name = js ''Firebase'',
        baseUrl = js ''https://firebase.google.com/docs'',
        indexPath = js ''/llms.txt''\<rparr>)]"

text \<open>\<^verbatim>\<open>Object.keys(DOC_SITES)\<close>, the registry's list of valid keys.\<close>

definition Object_keys :: "(jsstring \<times> DocSite) list \<Rightarrow> jsstring list" where
  "Object_keys obj = map fst obj"

text \<open>\<^verbatim>\<open>VALID_SITES = Object.keys(DOC_SITES).join(", ")\<close>.\<close>

definition VALID_SITES :: jsstring where
  "VALID_SITES = join (js '', '') (Object_keys DOC_SITES)"

text \<open>
  \<^verbatim>\<open>DOC_SITES[site]\<close> is a property read on an ordinary object. It finds an own property
  first; a name that is not an own property is looked up in \<^verbatim>\<open>Object.prototype\<close>, whose
  members are functions (and, for \<^verbatim>\<open>__proto__\<close>, the prototype object itself); only a
  name found in neither place reads as \<^verbatim>\<open>undefined\<close>.
\<close>

datatype js_value = Undefined | Site DocSite | Inherited jsstring

definition Object_prototype_names :: "jsstring list" where
  "Object_prototype_names =
    [js ''constructor'', js ''__defineGetter__'', js ''__defineSetter__'',
     js ''hasOwnProperty'', js ''__lookupGetter__'', js ''__lookupSetter__'',
     js ''isPrototypeOf'', js ''propertyIsEnumerable'', js ''toString'',
     js ''valueOf'', js ''__proto__'', js ''toLocaleString'']"

definition get_property :: "(jsstring \<times> DocSite) list \<Rightarrow> jsstring \<Rightarrow> js_value" where
  "get_property obj key =
     (case map_of obj key of
        Some d \<Rightarrow> Site d
      | None \<Rightarrow> if key \<in> set Object_prototype_names then Inherited key else Undefined)"

text \<open>\<^verbatim>\<open>!v\<close> holds of \<^verbatim>\<open>undefined\<close> only: objects and functions are truthy.\<close>

definition falsy :: "js_value \<Rightarrow> bool" where
  "falsy v \<longleftrightarrow> v = Undefined"

text \<open>The text of the error result that the three handlers return for an unknown site.\<close>

definition unknown_site_text :: "jsstring \<Rightarrow> jsstring" where
  "unknown_site_text site =
     js ''Error: Unknown site \"'' @ site @ js ''\". Valid sites are: '' @ VALID_SITES"

text \<open>
  The opening of every handler: read \<^verbatim>\<open>DOC_SITES[site]\<close> and return the error result
  (\<open>Inl\<close>, with its text) when the value is falsy; otherwise go on with the value.
\<close>

definition resolve_site :: "jsstring \<Rightarrow> jsstring + js_value" where
  "resolve_site site =
     (let docSite = get_property DOC_SITES site
      in if falsy docSite then Inl (unknown_site_text site) else Inr docSite)"

text \<open>The literals of \<^verbatim>\<open>z.enum([...])\<close> in the input schema of each tool.\<close>

definition site_enum :: "jsstring list" where
  "site_enum = [js ''module-federation'', js ''modernjs'', js ''firebase'']"

section \<open>Locators\<close>

text \<open>\<^verbatim>\<open>indexUrl\<close> of \<^verbatim>\<open>fetch_doc_index\<close> and \<^verbatim>\<open>search_docs\<close>.\<close>

definition indexUrl :: "DocSite \<Rightarrow> jsstring" where
  "indexUrl docSite = baseUrl docSite @ indexPath docSite"

text \<open>\<^verbatim>\<open>fetchUrl\<close> of \<^verbatim>\<open>fetch_doc_page\<close> (the specification's \<^verbatim>\<open>resolvePageLocator\<close>).\<close>

definition fetchUrl :: "DocSite \<Rightarrow> jsstring \<Rightarrow> jsstring" where
  "fetchUrl docSite url =
     (if startsWith url (js ''http://'') \<or> startsWith url (js ''https://'') then url
      else if startsWith url (js ''/'') then baseUrl docSite @ url
      else baseUrl docSite @ js ''/'' @ url)"

section \<open>Searching the index\<close>

text \<open>The array \<^verbatim>\<open>context\<close> built in the callback for the line at \<open>index\<close>. The
  callback runs for indices below \<open>length lines\<close> only, so every read is in range.\<close>

definition context_at :: "jsstring list \<Rightarrow> nat \<Rightarrow> jsstring list" where
  "context_at lines index =
     (if index > 0 then [lines ! (index - 1)] else [])
     @ [lines ! index]
     @ (if int index < int (length lines) - 1 then [lines ! (index + 1)] else [])"

text \<open>\<^verbatim>\<open>searchQuery\<close> and \<^verbatim>\<open>searchLine\<close>.\<close>

definition searchQuery :: "bool \<Rightarrow> jsstring \<Rightarrow> jsstring" where
  "searchQuery caseInsensitive query = (if caseInsensitive then toLowerCase query else query)"

definition searchLine :: "bool \<Rightarrow> jsstring \<Rightarrow> jsstring" where
  "searchLine caseInsensitive line = (if caseInsensitive then toLowerCase line else line)"

text \<open>One call of the callback of \<^verbatim>\<open>lines.forEach\<close>: \<open>matches\<close> before, \<open>matches\<close>
  after.\<close>

definition callback :: "jsstring list \<Rightarrow> bool \<Rightarrow> jsstring \<Rightarrow> jsstring list \<Rightarrow> nat \<Rightarrow> jsstring list" where
  "callback lines caseInsensitive query matches index =
     (if includesStr (searchLine caseInsensitive (lines ! index)) (searchQuery caseInsensitive query)
      then matches @ [join [0x0A] (context_at lines index)]
      else matches)"

text \<open>\<^verbatim>\<open>matches\<close> after the loop (the specification's \<^verbatim>\<open>search\<close>): \<^verbatim>\<open>forEach\<close>
  calls the callback at the indices \<open>0, 1, ...\<close> in turn, starting from the empty array.\<close>

definition search :: "jsstring \<Rightarrow> jsstring \<Rightarrow> bool \<Rightarrow> jsstring list" where
  "search indexContent query caseInsensitive =
     (let lines = split_nl indexContent
      in foldl (callback lines caseInsensitive query) [] [0..<length lines])"

text \<open>The indices at which the callback's test succeeds, in the order of the loop.\<close>

definition matching_indices :: "jsstring \<Rightarrow> jsstring \<Rightarrow> bool \<Rightarrow> nat list" where
  "matching_indices indexContent query caseInsensitive =
     (let lines = split_nl indexContent
      in filter (\<lambda>i. includesStr (searchLine caseInsensitive (lines ! i))
                       (searchQuery caseInsensitive query)) [0..<length lines])"

text \<open>Text of Basic Latin: every code unit is below U+0080.\<close>

definition basic_latin :: "jsstring \<Rightarrow> bool" where
  "basic_latin s = list_all (\<lambda>c. c < 0x80) s"

section \<open>Facts about the string operations\<close>

text \<open>\<open>startsWith\<close> and \<open>includesStr\<close> decide "begins with" and "contains as a contiguous
  substring".\<close>

lemma startsWith_iff: "startsWith s p \<longleftrightarrow> (\<exists>r. s = p @ r)"
  by (induction s p rule: startsWith.induct) auto

lemma includesStr_iff: "includesStr s q \<longleftrightarrow> (\<exists>a b. s = a @ q @ b)"
proof (induction s)
  case Nil
  show ?case by auto
next
  case (Cons c cs)
  show ?case
  proof
    assume "includesStr (c # cs) q"
    then consider "startsWith (c # cs) q" | "includesStr cs q" by auto
    then show "\<exists>a b. c # cs = a @ q @ b"
    proof cases
      case 1
      then obtain r where "c # cs = q @ r" by (auto simp: startsWith_iff)
      then have "c # cs = [] @ q @ r" by simp
      then show ?thesis by blast
    next
      case 2
      then obtain a b where "cs = a @ q @ b" using Cons.IH by blast
      then have "c # cs = (c # a) @ q @ b" by simp
      then show ?thesis by blast
    qed
  next
    assume "\<exists>a b. c # cs = a @ q @ b"
    then obtain a b where ab: "c # cs = a @ q @ b" by blast
    show "includesStr (c # cs) q"
    proof (cases a)
      case Nil
      with ab have "startsWith (c # cs) q" by (auto simp: startsWith_iff)
      then show ?thesis by simp
    next
      case (Cons x a')
      with ab have "cs = a' @ q @ b" by simp
      then have "includesStr cs q" using Cons.IH by blast
      then show ?thesis by simp
    qed
  qed
qed

text \<open>Splitting: at least one line, one more than there are line feeds; no line holds a
  line feed; joining the lines with line feeds gives the text back.\<close>

lemma split_nl_not_Nil: "split_nl s \<noteq> []"
  by (induction s) (auto split: list.splits)

lemma length_split_nl: "length (split_nl s) = Suc (count_list s 0x0A)"
proof (induction s)
  case Nil
  show ?case by simp
next
  case (Cons c cs)
  obtain l' ls where sp: "split_nl cs = l' # ls"
    using split_nl_not_Nil [of cs] by (cases "split_nl cs") auto
  with Cons show ?case by auto
qed

lemma join_split_nl: "join [0x0A] (split_nl s) = s"
proof (induction s)
  case Nil
  show ?case by simp
next
  case (Cons c cs)
  obtain l ls where sp: "split_nl cs = l # ls"
    using split_nl_not_Nil [of cs] by (cases "split_nl cs") auto
  show ?case
  proof (cases "c = 0x0A")
    case True
    with Cons sp show ?thesis by simp
  next
    case False
    with Cons sp show ?thesis by (cases ls) auto
  qed
qed

lemma split_nl_no_nl: "l \<in> set (split_nl s) \<Longrightarrow> 0x0A \<notin> set l"
proof (induction s arbitrary: l)
  case Nil
  then show ?case by simp
next
  case (Cons c cs)
  obtain l' ls where sp: "split_nl cs = l' # ls"
    using split_nl_not_Nil [of cs] by (cases "split_nl cs") auto
  show ?case
  proof (cases "c = 0x0A")
    case True
    with Cons show ?thesis by auto
  next
    case False
    with Cons.prems sp have "l = c # l' \<or> l \<in> set ls" by auto
    then show ?thesis
    proof
      assume "l = c # l'"
      moreover have "0x0A \<notin> set l'" using Cons.IH [of l'] sp by simp
      ultimately show ?thesis using False by auto
    next
      assume "l \<in> set ls"
      then show ?thesis using Cons.IH [of l] sp by simp
    qed
  qed
qed

text \<open>Lower-casing keeps the length in the model; on Basic Latin text it is the
  unconditional mapping, one code unit at a time.\<close>

lemma length_lower_from: "length (lower_from b s) = length s"
  by (induction s arbitrary: b) simp_all

lemma toLowerCase_Nil: "toLowerCase [] = []"
  by (simp add: toLowerCase_def)

lemma toLowerCase_eq_Nil: "toLowerCase s = [] \<longleftrightarrow> s = []"
  by (metis length_lower_from length_0_conv toLowerCase_def)

lemma ascii_not_greek_upper: "c < 0x80 \<Longrightarrow> \<not> greek_upper c"
  by (simp add: greek_upper_def word_less_nat_alt word_le_nat_alt)

lemma lower_from_ascii:
  "list_all (\<lambda>c. c < 0x80) s \<Longrightarrow> lower_from b s = map simple_lower s"
  by (induction s arbitrary: b) auto

lemma toLowerCase_basic_latin: "basic_latin s \<Longrightarrow> toLowerCase s = map simple_lower s"
  by (simp add: basic_latin_def toLowerCase_def lower_from_ascii)

section \<open>Facts about the search loop\<close>

text \<open>The loop appends, for each index that passes the test and in the order of the
  indices, the joined context of that index.\<close>

lemma foldl_callback:
  "foldl (callback lines ci q) acc is =
     acc @ map (\<lambda>i. join [0x0A] (context_at lines i))
            (filter (\<lambda>i. includesStr (searchLine ci (lines ! i)) (searchQuery ci q)) is)"
  by (induction "is" arbitrary: acc) (simp_all add: callback_def)

lemma search_eq:
  "search t q ci = map (\<lambda>i. join [0x0A] (context_at (split_nl t) i)) (matching_indices t q ci)"
  by (simp add: search_def matching_indices_def Let_def foldl_callback)

lemma set_matching_indices:
  "set (matching_indices t q ci) =
     {i. i < length (split_nl t) \<and>
         includesStr (searchLine ci (split_nl t ! i)) (searchQuery ci q)}"
  by (auto simp: matching_indices_def Let_def)

text \<open>The context of a line is the window of the lines from the one before it to the one
  after it, cut at both ends of the text.\<close>

lemma context_at_window:
  "i < length lines \<Longrightarrow> context_at lines i = drop (i - 1) (take (i + 2) lines)"
proof (rule nth_equalityI)
  assume i: "i < length lines"
  show len: "length (context_at lines i) = length (drop (i - 1) (take (i + 2) lines))"
    using i by (auto simp: context_at_def)
  fix k assume "k < length (context_at lines i)"
  then have k: "k < length (drop (i - 1) (take (i + 2) lines))" using len by simp
  then show "context_at lines i ! k = drop (i - 1) (take (i + 2) lines) ! k"
    using i by (auto simp: context_at_def nth_append nth_Cons' less_Suc_eq
                  numeral_3_eq_3 numeral_2_eq_2)
qed

section \<open>The registry and the locators\<close>

lemma ends_with_iff: "(\<exists>r. s = r @ p) \<longleftrightarrow> startsWith (rev s) (rev p)"
proof
  assume "\<exists>r. s = r @ p"
  then obtain r where "s = r @ p" by blast
  then have "rev s = rev p @ rev r" by simp
  then show "startsWith (rev s) (rev p)" unfolding startsWith_iff by blast
next
  assume "startsWith (rev s) (rev p)"
  then obtain r where "rev s = rev p @ r" unfolding startsWith_iff by blast
  then have "rev (rev s) = rev (rev p @ r)" by simp
  then have "s = rev r @ p" by simp
  then show "\<exists>r. s = r @ p" by blast
qed

text \<open>The index locators of the three sites.\<close>

lemma indexUrl_DOC_SITES:
  "map (\<lambda>(key, docSite). indexUrl docSite) DOC_SITES =
     [js ''https://module-federation.io/llms.txt'',
      js ''https://modernjs.dev/llms.txt'',
      js ''https://firebase.google.com/docs/llms.txt'']"
  by (simp add: DOC_SITES_def indexUrl_def js_def)

text \<open>The input schema of every tool admits exactly the keys of the registry.\<close>

lemma site_enum_keys: "site_enum = Object_keys DOC_SITES"
  by (simp add: site_enum_def Object_keys_def DOC_SITES_def)

lemma map_of_DOC_SITES_None:
  "key \<notin> set (Object_keys DOC_SITES) \<Longrightarrow> map_of DOC_SITES key = None"
  by (simp add: Object_keys_def map_of_eq_None_iff)

lemma map_of_DOC_SITES_Some: "(key, d) \<in> set DOC_SITES \<Longrightarrow> map_of DOC_SITES key = Some d"
  by (rule map_of_is_SomeI) (simp_all add: DOC_SITES_def js_def)

text \<open>
  Claim C1. The locator of a page follows the shape of the target, in this order: a
  target that begins with \<^verbatim>\<open>http://\<close> or \<^verbatim>\<open>https://\<close> is the locator itself,
  whatever the site; otherwise a target that begins with \<^verbatim>\<open>/\<close> is appended to the
  base location; otherwise the base location, a slash and the target are concatenated.
\<close>

theorem fetchUrl_precedence:
  "((\<exists>r. url = js ''http://'' @ r) \<or> (\<exists>r. url = js ''https://'' @ r)
      \<longrightarrow> fetchUrl docSite url = url)
   \<and> (\<not> ((\<exists>r. url = js ''http://'' @ r) \<or> (\<exists>r. url = js ''https://'' @ r))
        \<and> (\<exists>r. url = js ''/'' @ r)
      \<longrightarrow> fetchUrl docSite url = baseUrl docSite @ url)
   \<and> (\<not> ((\<exists>r. url = js ''http://'' @ r) \<or> (\<exists>r. url = js ''https://'' @ r))
        \<and> \<not> (\<exists>r. url = js ''/'' @ r)
      \<longrightarrow> fetchUrl docSite url = baseUrl docSite @ js ''/'' @ url)"
  unfolding fetchUrl_def startsWith_iff by simp

text \<open>The three targets of the specification's examples, resolved against the third
  site of the registry.\<close>

theorem fetchUrl_precedence_witness:
  "fetchUrl (snd (DOC_SITES ! 2)) (js ''https://x/y'') = js ''https://x/y''
   \<and> fetchUrl (snd (DOC_SITES ! 2)) (js ''/a/b'') = js ''https://firebase.google.com/docs/a/b''
   \<and> fetchUrl (snd (DOC_SITES ! 2)) (js ''a/b'') = js ''https://firebase.google.com/docs/a/b''"
proof -
  have abs: "\<exists>r. js ''https://x/y'' = js ''https://'' @ r"
    unfolding startsWith_iff [symmetric] by (simp add: js_def)
  have rooted:
    "\<not> ((\<exists>r. js ''/a/b'' = js ''http://'' @ r) \<or> (\<exists>r. js ''/a/b'' = js ''https://'' @ r))
     \<and> (\<exists>r. js ''/a/b'' = js ''/'' @ r)"
    unfolding startsWith_iff [symmetric] by (simp add: js_def)
  have bare:
    "\<not> ((\<exists>r. js ''a/b'' = js ''http://'' @ r) \<or> (\<exists>r. js ''a/b'' = js ''https://'' @ r))
     \<and> \<not> (\<exists>r. js ''a/b'' = js ''/'' @ r)"
    unfolding startsWith_iff [symmetric] by (simp add: js_def)
  have b: "baseUrl (snd (DOC_SITES ! 2)) = js ''https://firebase.google.com/docs''"
    by (simp add: DOC_SITES_def)
  show ?thesis
    using fetchUrl_precedence [of "js ''https://x/y''" "snd (DOC_SITES ! 2)"]
      fetchUrl_precedence [of "js ''/a/b''" "snd (DOC_SITES ! 2)"]
      fetchUrl_precedence [of "js ''a/b''" "snd (DOC_SITES ! 2)"]
      abs rooted bare
    by (simp add: b js_def)
qed

text \<open>
  Claim C6. The empty target is a bare path: its locator is the base location followed
  by a slash, for every site.
\<close>

theorem fetchUrl_empty_target: "fetchUrl docSite [] = baseUrl docSite @ js ''/''"
  by (simp add: fetchUrl_def js_def)

text \<open>
  Claim C8. In the registry table no key occurs twice, no base location ends with a
  slash, and every index locator begins with a slash.
\<close>

theorem DOC_SITES_invariant:
  "distinct (Object_keys DOC_SITES)
   \<and> (\<forall>(key, docSite) \<in> set DOC_SITES.
        \<not> (\<exists>r. baseUrl docSite = r @ js ''/'') \<and> (\<exists>r. indexPath docSite = js ''/'' @ r))"
  unfolding startsWith_iff [symmetric] ends_with_iff
  by (simp add: DOC_SITES_def Object_keys_def js_def)

theorem DOC_SITES_invariant_witness:
  "(js ''firebase'', snd (DOC_SITES ! 2)) \<in> set DOC_SITES
   \<and> \<not> (\<exists>r. baseUrl (snd (DOC_SITES ! 2)) = r @ js ''/'')
   \<and> (\<exists>r. indexPath (snd (DOC_SITES ! 2)) = js ''/'' @ r)"
proof -
  have m: "(js ''firebase'', snd (DOC_SITES ! 2)) \<in> set DOC_SITES"
    by (simp add: DOC_SITES_def)
  from DOC_SITES_invariant have
    "\<forall>(key, docSite) \<in> set DOC_SITES.
        \<not> (\<exists>r. baseUrl docSite = r @ js ''/'') \<and> (\<exists>r. indexPath docSite = js ''/'' @ r)"
    by (rule conjunct2)
  from bspec [OF this m] m show ?thesis by simp
qed

text \<open>
  Every key of the registry resolves to the descriptor registered under it. A key that is
  found neither in the registry nor in \<^verbatim>\<open>Object.prototype\<close> reads as \<^verbatim>\<open>undefined\<close>
  and gets the unknown-site error, whose text carries the key and the list of valid keys,
  \<^verbatim>\<open>Object.keys(DOC_SITES)\<close> joined by a comma and a space.
\<close>

lemma resolve_site_registered_or_unknown:
  "(\<forall>(key, docSite) \<in> set DOC_SITES. resolve_site key = Inr (Site docSite))
   \<and> (key' \<notin> set (Object_keys DOC_SITES) \<and> key' \<notin> set Object_prototype_names
        \<longrightarrow> resolve_site key' =
              Inl (js ''Error: Unknown site \"'' @ key' @ js ''\". Valid sites are: ''
                   @ join (js '', '') (Object_keys DOC_SITES)))"
proof (intro conjI ballI impI)
  fix x assume x: "x \<in> set DOC_SITES"
  obtain key docSite where kd: "x = (key, docSite)" by (cases x)
  from x kd have "map_of DOC_SITES key = Some docSite" by (simp add: map_of_DOC_SITES_Some)
  then show "case x of (key, docSite) \<Rightarrow> resolve_site key = Inr (Site docSite)"
    by (simp add: kd resolve_site_def get_property_def falsy_def)
next
  assume "key' \<notin> set (Object_keys DOC_SITES) \<and> key' \<notin> set Object_prototype_names"
  then show "resolve_site key' =
              Inl (js ''Error: Unknown site \"'' @ key' @ js ''\". Valid sites are: ''
                   @ join (js '', '') (Object_keys DOC_SITES))"
    by (simp add: resolve_site_def get_property_def falsy_def map_of_DOC_SITES_None
          unknown_site_text_def VALID_SITES_def)
qed

text \<open>A key that the input schema admits is a key of the registry and resolves to its
  descriptor: on validated input the guard never meets an inherited name.\<close>

lemma resolve_site_schema_valid:
  "site \<in> set site_enum \<Longrightarrow> \<exists>docSite. (site, docSite) \<in> set DOC_SITES \<and> resolve_site site = Inr (Site docSite)"
  by (auto simp: site_enum_def resolve_site_def get_property_def falsy_def DOC_SITES_def js_def)


section \<open>The search\<close>

text \<open>More on the string operations: the empty query occurs everywhere, and splitting
  undoes joining when no joined line holds a line feed.\<close>

lemma includesStr_Nil: "includesStr s []"
  by (cases s) simp_all

lemma split_nl_line: "0x0A \<notin> set x \<Longrightarrow> split_nl x = [x]"
  by (induction x) auto

lemma split_nl_append: "0x0A \<notin> set x \<Longrightarrow> split_nl (x @ 0x0A # r) = x # split_nl r"
  by (induction x) auto

lemma split_nl_join:
  "xs \<noteq> [] \<Longrightarrow> \<forall>l \<in> set xs. 0x0A \<notin> set l \<Longrightarrow> split_nl (join [0x0A] xs) = xs"
  by (induction "[0x0A :: code_unit]" xs rule: join.induct)
     (simp_all add: split_nl_line split_nl_append)

lemma context_at_subset: "i < length lines \<Longrightarrow> set (context_at lines i) \<subseteq> set lines"
  by (auto simp: context_at_def)

lemma context_at_not_Nil: "context_at lines i \<noteq> []"
  by (simp add: context_at_def)

lemma sorted_matching_indices: "sorted_wrt (<) (matching_indices t q ci)"
  by (simp add: matching_indices_def Let_def sorted_wrt_filter)

lemma lower_from_append_ascii:
  "list_all (\<lambda>c. c < 0x80) q \<Longrightarrow>
     lower_from p (q @ b) = map simple_lower q @ lower_from (rev q @ p) b"
  by (induction q arbitrary: p) auto

lemma drop_lower_from:
  "drop (length a) (lower_from p (a @ s)) = lower_from (rev a @ p) s"
  by (induction a arbitrary: p) simp_all

lemma lower_from_append:
  "\<exists>x. lower_from p (a @ s) = x @ lower_from (rev a @ p) s"
proof -
  have "lower_from p (a @ s) =
          take (length a) (lower_from p (a @ s)) @ drop (length a) (lower_from p (a @ s))"
    by simp
  then show ?thesis unfolding drop_lower_from by blast
qed

lemma toLowerCase_occurrence:
  assumes "basic_latin q"
  shows "\<exists>x y. toLowerCase (a @ q @ b) = x @ toLowerCase q @ y"
proof -
  obtain x where "lower_from [] (a @ q @ b) = x @ lower_from (rev a @ []) (q @ b)"
    using lower_from_append [of "[]" a "q @ b"] by blast
  moreover have "lower_from (rev a @ []) (q @ b)
      = map simple_lower q @ lower_from (rev q @ rev a @ []) b"
    using assms by (simp only: basic_latin_def lower_from_append_ascii)
  moreover have "toLowerCase q = map simple_lower q"
    using assms by (rule toLowerCase_basic_latin)
  ultimately have "toLowerCase (a @ q @ b) = x @ toLowerCase q @ lower_from (rev q @ rev a @ []) b"
    by (simp add: toLowerCase_def)
  then show ?thesis by blast
qed

text \<open>
  Claim C2. The lines that the search matches are the lines of the text, split at line
  feeds, whose effective text contains the effective query as a contiguous substring;
  line and query are both lower-cased when \<open>ci\<close> holds and both left as they are
  otherwise. The result has one entry for each of these lines. For the empty query every
  line matches: the result has as many entries as the text has lines.
\<close>

theorem search_matches_iff_contains:
  "set (matching_indices text query ci) =
     {i. i < length (split_nl text) \<and>
         (\<exists>a b. (if ci then toLowerCase (split_nl text ! i) else split_nl text ! i)
                  = a @ (if ci then toLowerCase query else query) @ b)}
   \<and> search text query ci =
       map (\<lambda>i. join [0x0A] (context_at (split_nl text) i)) (matching_indices text query ci)
   \<and> length (search text [] ci) = length (split_nl text)"
proof (intro conjI)
  show "set (matching_indices text query ci) =
     {i. i < length (split_nl text) \<and>
         (\<exists>a b. (if ci then toLowerCase (split_nl text ! i) else split_nl text ! i)
                  = a @ (if ci then toLowerCase query else query) @ b)}"
    unfolding set_matching_indices includesStr_iff searchLine_def searchQuery_def by simp
  show "search text query ci =
       map (\<lambda>i. join [0x0A] (context_at (split_nl text) i)) (matching_indices text query ci)"
    by (rule search_eq)
  have "searchQuery ci [] = []"
    by (simp add: searchQuery_def toLowerCase_Nil)
  then have "matching_indices text [] ci = [0..<length (split_nl text)]"
    by (simp add: matching_indices_def Let_def includesStr_Nil)
  then show "length (search text [] ci) = length (split_nl text)"
    by (simp add: search_eq)
qed

text \<open>The text and the queries of the specification's examples.\<close>

theorem search_matches_iff_contains_witness:
  "length (search (js ''alpha\<newline>beta\<newline>alpha\<newline>gamma'') [] True) = 4
   \<and> set (matching_indices (js ''alpha\<newline>beta\<newline>alpha\<newline>gamma'') (js ''ALPHA'') True) = {0, 2}
   \<and> search (js ''alpha\<newline>beta\<newline>alpha\<newline>gamma'') (js ''ALPHA'') True
       = [js ''alpha\<newline>beta'', js ''beta\<newline>alpha\<newline>gamma'']
   \<and> search (js ''alpha\<newline>beta\<newline>alpha\<newline>gamma'') (js ''ALPHA'') False = []"
proof -
  have sp: "length (split_nl (js ''alpha\<newline>beta\<newline>alpha\<newline>gamma'')) = 4"
    by code_simp
  have m: "matching_indices (js ''alpha\<newline>beta\<newline>alpha\<newline>gamma'') (js ''ALPHA'') True = [0, 2]"
    by code_simp
  have c0: "join [0x0A] (context_at (split_nl (js ''alpha\<newline>beta\<newline>alpha\<newline>gamma'')) 0)
              = js ''alpha\<newline>beta''"
    by code_simp
  have c2: "join [0x0A] (context_at (split_nl (js ''alpha\<newline>beta\<newline>alpha\<newline>gamma'')) 2)
              = js ''beta\<newline>alpha\<newline>gamma''"
    by code_simp
  have f: "search (js ''alpha\<newline>beta\<newline>alpha\<newline>gamma'') (js ''ALPHA'') False = []"
    by code_simp
  from search_matches_iff_contains
         [of "js ''alpha\<newline>beta\<newline>alpha\<newline>gamma''" "js ''ALPHA''" True]
  show ?thesis
    by (simp add: sp m c0 c2 f)
qed

text \<open>
  Claim C3. The entry for a matching line at index \<open>i\<close> is made of the line before it
  when \<open>i > 0\<close>, the line itself, and the line after it when \<open>i\<close> is not the last
  index. These are lines of the text as it was split, whatever \<open>ci\<close> is: the entry is
  their join by line feeds, and splitting the entry gives the same lines back.
\<close>

theorem search_context_lines:
  "search text query ci =
     map (\<lambda>i. join [0x0A] (context_at (split_nl text) i)) (matching_indices text query ci)
   \<and> (\<forall>i \<in> set (matching_indices text query ci).
        i < length (split_nl text)
        \<and> context_at (split_nl text) i =
            (if 0 < i then [split_nl text ! (i - 1)] else [])
            @ [split_nl text ! i]
            @ (if i \<noteq> length (split_nl text) - 1 then [split_nl text ! (i + 1)] else [])
        \<and> split_nl (join [0x0A] (context_at (split_nl text) i)) = context_at (split_nl text) i)"
proof (intro conjI ballI)
  show "search text query ci =
     map (\<lambda>i. join [0x0A] (context_at (split_nl text) i)) (matching_indices text query ci)"
    by (rule search_eq)
next
  fix i assume "i \<in> set (matching_indices text query ci)"
  then show i: "i < length (split_nl text)"
    by (simp add: set_matching_indices)
  then show "context_at (split_nl text) i =
            (if 0 < i then [split_nl text ! (i - 1)] else [])
            @ [split_nl text ! i]
            @ (if i \<noteq> length (split_nl text) - 1 then [split_nl text ! (i + 1)] else [])"
    by (auto simp: context_at_def)
  have "\<forall>l \<in> set (context_at (split_nl text) i). 0x0A \<notin> set l"
    using context_at_subset [OF i] split_nl_no_nl by blast
  then show "split_nl (join [0x0A] (context_at (split_nl text) i)) = context_at (split_nl text) i"
    by (rule split_nl_join [OF context_at_not_Nil])
qed

text \<open>A case-insensitive search: the entries keep the capitals of the text.\<close>

theorem search_context_lines_witness:
  "2 \<in> set (matching_indices (js ''Alpha\<newline>beta\<newline>ALPHA'') (js ''alpha'') True)
   \<and> context_at (split_nl (js ''Alpha\<newline>beta\<newline>ALPHA'')) 2 = [js ''beta'', js ''ALPHA'']
   \<and> 0 \<in> set (matching_indices (js ''Alpha\<newline>beta\<newline>ALPHA'') (js ''alpha'') True)
   \<and> context_at (split_nl (js ''Alpha\<newline>beta\<newline>ALPHA'')) 0 = [js ''Alpha'', js ''beta'']
   \<and> search (js ''Alpha\<newline>beta\<newline>ALPHA'') (js ''alpha'') True
       = [js ''Alpha\<newline>beta'', js ''beta\<newline>ALPHA'']"
proof -
  have sp: "split_nl (js ''Alpha\<newline>beta\<newline>ALPHA'') = [js ''Alpha'', js ''beta'', js ''ALPHA'']"
    by code_simp
  have m: "matching_indices (js ''Alpha\<newline>beta\<newline>ALPHA'') (js ''alpha'') True = [0, 2]"
    by code_simp
  have m0: "0 \<in> set (matching_indices (js ''Alpha\<newline>beta\<newline>ALPHA'') (js ''alpha'') True)"
    and m2: "2 \<in> set (matching_indices (js ''Alpha\<newline>beta\<newline>ALPHA'') (js ''alpha'') True)"
    by (simp_all add: m)
  have j0: "join [0x0A] [js ''Alpha'', js ''beta''] = js ''Alpha\<newline>beta''"
    and j2: "join [0x0A] [js ''beta'', js ''ALPHA''] = js ''beta\<newline>ALPHA''"
    by (simp_all add: js_def)
  note t = search_context_lines [of "js ''Alpha\<newline>beta\<newline>ALPHA''" "js ''alpha''" True]
  from t have s: "search (js ''Alpha\<newline>beta\<newline>ALPHA'') (js ''alpha'') True =
     map (\<lambda>i. join [0x0A] (context_at (split_nl (js ''Alpha\<newline>beta\<newline>ALPHA'')) i))
       (matching_indices (js ''Alpha\<newline>beta\<newline>ALPHA'') (js ''alpha'') True)"
    by (rule conjunct1)
  from bspec [OF t [THEN conjunct2] m2]
  have c2: "context_at (split_nl (js ''Alpha\<newline>beta\<newline>ALPHA'')) 2 = [js ''beta'', js ''ALPHA'']"
    by (simp add: sp)
  from bspec [OF t [THEN conjunct2] m0]
  have c0: "context_at (split_nl (js ''Alpha\<newline>beta\<newline>ALPHA'')) 0 = [js ''Alpha'', js ''beta'']"
    by (simp add: sp)
  from s have "search (js ''Alpha\<newline>beta\<newline>ALPHA'') (js ''alpha'') True
       = [join [0x0A] (context_at (split_nl (js ''Alpha\<newline>beta\<newline>ALPHA'')) 0),
          join [0x0A] (context_at (split_nl (js ''Alpha\<newline>beta\<newline>ALPHA'')) 2)]"
    by (simp add: m)
  then have "search (js ''Alpha\<newline>beta\<newline>ALPHA'') (js ''alpha'') True
       = [js ''Alpha\<newline>beta'', js ''beta\<newline>ALPHA'']"
    by (simp only: c0 c2 j0 j2)
  with m0 m2 c0 c2 show ?thesis by blast
qed

text \<open>
  Claim C4. The result holds exactly one entry for each matching line index, however
  often the query occurs in the line, and the entries stand in strictly ascending order
  of the line index.
\<close>

theorem search_one_entry_per_line_in_order:
  "search text query ci =
     map (\<lambda>i. join [0x0A] (context_at (split_nl text) i)) (matching_indices text query ci)
   \<and> sorted_wrt (<) (matching_indices text query ci)
   \<and> set (matching_indices text query ci) =
       {i. i < length (split_nl text) \<and>
           includesStr (searchLine ci (split_nl text ! i)) (searchQuery ci query)}
   \<and> length (search text query ci) =
       card {i. i < length (split_nl text) \<and>
                includesStr (searchLine ci (split_nl text ! i)) (searchQuery ci query)}"
proof (intro conjI)
  show "search text query ci =
     map (\<lambda>i. join [0x0A] (context_at (split_nl text) i)) (matching_indices text query ci)"
    by (rule search_eq)
  show s: "sorted_wrt (<) (matching_indices text query ci)"
    by (rule sorted_matching_indices)
  show m: "set (matching_indices text query ci) =
       {i. i < length (split_nl text) \<and>
           includesStr (searchLine ci (split_nl text ! i)) (searchQuery ci query)}"
    by (rule set_matching_indices)
  have "distinct (matching_indices text query ci)"
    using s strict_sorted_iff by blast
  then have "card (set (matching_indices text query ci)) = length (matching_indices text query ci)"
    by (rule distinct_card)
  then show "length (search text query ci) =
       card {i. i < length (split_nl text) \<and>
                includesStr (searchLine ci (split_nl text ! i)) (searchQuery ci query)}"
    by (simp add: search_eq m)
qed

text \<open>The query occurs twice in the first line, which gives one entry.\<close>

theorem search_one_entry_per_line_in_order_witness:
  "search (js ''aa\<newline>b\<newline>a'') (js ''a'') False = [js ''aa\<newline>b'', js ''b\<newline>a'']
   \<and> matching_indices (js ''aa\<newline>b\<newline>a'') (js ''a'') False = [0, 2]
   \<and> card {i. i < length (split_nl (js ''aa\<newline>b\<newline>a'')) \<and>
              includesStr (searchLine False (split_nl (js ''aa\<newline>b\<newline>a'') ! i))
                (searchQuery False (js ''a''))} = 2"
proof -
  have s: "search (js ''aa\<newline>b\<newline>a'') (js ''a'') False = [js ''aa\<newline>b'', js ''b\<newline>a'']"
    by code_simp
  have m: "matching_indices (js ''aa\<newline>b\<newline>a'') (js ''a'') False = [0, 2]"
    by code_simp
  from search_one_entry_per_line_in_order [of "js ''aa\<newline>b\<newline>a''" "js ''a''" False]
  have "length (search (js ''aa\<newline>b\<newline>a'') (js ''a'') False) =
       card {i. i < length (split_nl (js ''aa\<newline>b\<newline>a'')) \<and>
              includesStr (searchLine False (split_nl (js ''aa\<newline>b\<newline>a'') ! i))
                (searchQuery False (js ''a''))}"
    by blast
  with s m show ?thesis by simp
qed

text \<open>
  Claim C7. When no line of the text matches the query, the result of the search is the
  empty sequence.
\<close>

theorem search_no_match:
  "(\<forall>l \<in> set (split_nl text).
      \<not> (\<exists>a b. (if ci then toLowerCase l else l) = a @ (if ci then toLowerCase query else query) @ b))
   \<Longrightarrow> search text query ci = []"
proof -
  assume h: "\<forall>l \<in> set (split_nl text).
      \<not> (\<exists>a b. (if ci then toLowerCase l else l) = a @ (if ci then toLowerCase query else query) @ b)"
  have "set (matching_indices text query ci) = {}"
  proof (rule ccontr)
    assume "set (matching_indices text query ci) \<noteq> {}"
    then obtain i where i: "i < length (split_nl text)"
      and c: "includesStr (searchLine ci (split_nl text ! i)) (searchQuery ci query)"
      unfolding set_matching_indices by blast
    from i have "split_nl text ! i \<in> set (split_nl text)" by simp
    with h c show False
      unfolding includesStr_iff searchLine_def searchQuery_def by blast
  qed
  then show ?thesis by (simp add: search_eq)
qed

theorem search_no_match_witness:
  "search (js ''alpha\<newline>beta\<newline>alpha\<newline>gamma'') (js ''ALPHA'') False = []"
proof -
  have sp: "split_nl (js ''alpha\<newline>beta\<newline>alpha\<newline>gamma'')
              = [js ''alpha'', js ''beta'', js ''alpha'', js ''gamma'']"
    by code_simp
  have h: "\<forall>l \<in> set (split_nl (js ''alpha\<newline>beta\<newline>alpha\<newline>gamma'')).
      \<not> (\<exists>a b. (if False then toLowerCase l else l)
                  = a @ (if False then toLowerCase (js ''ALPHA'') else js ''ALPHA'') @ b)"
    unfolding sp includesStr_iff [symmetric] by (simp add: js_def)
  from search_no_match [OF h] show ?thesis .
qed

text \<open>
  Claim C10. The empty text splits into one empty line. For the empty query the search
  gives one entry, made of that empty line alone; for any other query it gives the empty
  sequence. Both hold for either value of \<open>ci\<close>.
\<close>

theorem search_empty_text:
  "split_nl [] = [[]]
   \<and> matching_indices [] [] ci = [0]
   \<and> context_at (split_nl []) 0 = [[]]
   \<and> search [] [] ci = [[]]
   \<and> (query \<noteq> [] \<longrightarrow> search [] query ci = [])"
proof (intro conjI impI)
  show "split_nl [] = [[]]" by simp
  show "matching_indices [] [] ci = [0]"
    by (simp add: matching_indices_def searchLine_def searchQuery_def toLowerCase_Nil)
  show "context_at (split_nl []) 0 = [[]]"
    by (simp add: context_at_def)
  show "search [] [] ci = [[]]"
    by (simp add: search_def callback_def context_at_def searchLine_def searchQuery_def
          toLowerCase_Nil)
next
  assume "query \<noteq> []"
  then have "searchQuery ci query \<noteq> []"
    by (simp add: searchQuery_def toLowerCase_eq_Nil)
  moreover have "searchLine ci [] = []"
    by (simp add: searchLine_def toLowerCase_Nil)
  ultimately show "search [] query ci = []"
    by (simp add: search_def callback_def)
qed

theorem search_empty_text_witness:
  "js ''a'' \<noteq> [] \<and> search [] (js ''a'') True = [] \<and> search [] [] True = [[]]"
proof -
  have n: "js ''a'' \<noteq> []" by (simp add: js_def)
  from search_empty_text [of True "js ''a''"] n show ?thesis by simp
qed

text \<open>
  Claim C9, as the code has it. For every text and every query of Basic Latin code
  units, every line index that matches in the exact comparison matches in the
  lower-cased comparison.
\<close>

theorem case_sensitive_match_basic_latin:
  assumes "basic_latin query"
  shows "set (matching_indices text query False) \<subseteq> set (matching_indices text query True)"
proof
  fix i assume "i \<in> set (matching_indices text query False)"
  then have i: "i < length (split_nl text)"
    and c: "includesStr (split_nl text ! i) query"
    by (simp_all add: set_matching_indices searchLine_def searchQuery_def)
  from c obtain a b where ab: "split_nl text ! i = a @ query @ b"
    unfolding includesStr_iff by blast
  from toLowerCase_occurrence [OF assms, of a b]
  have "includesStr (toLowerCase (split_nl text ! i)) (toLowerCase query)"
    unfolding includesStr_iff ab by blast
  with i show "i \<in> set (matching_indices text query True)"
    by (simp add: set_matching_indices searchLine_def searchQuery_def)
qed

text \<open>The last line of the text has Greek capitals before the occurrence of the query.\<close>

theorem case_sensitive_match_basic_latin_witness:
  "basic_latin (js ''ALPHA'')
   \<and> set (matching_indices (js ''Alpha\<newline>beta\<newline>'' @ [0x0391, 0x03A3] @ js '' ALPHA'')
            (js ''ALPHA'') False) = {2}
   \<and> 2 \<in> set (matching_indices (js ''Alpha\<newline>beta\<newline>'' @ [0x0391, 0x03A3] @ js '' ALPHA'')
            (js ''ALPHA'') True)"
proof -
  have q: "basic_latin (js ''ALPHA'')"
    by (simp add: basic_latin_def js_def)
  have f: "matching_indices (js ''Alpha\<newline>beta\<newline>'' @ [0x0391, 0x03A3] @ js '' ALPHA'')
             (js ''ALPHA'') False = [2]"
    by code_simp
  from case_sensitive_match_basic_latin
         [OF q, of "js ''Alpha\<newline>beta\<newline>'' @ [0x0391, 0x03A3] @ js '' ALPHA''"] f q
  show ?thesis by simp
qed

text \<open>
  Without the restriction on the query the inclusion fails, since lower-casing a string
  is not lower-casing its parts: the line U+0391 U+03A3 U+0391 (capital alpha, sigma,
  alpha) contains the query U+0391 U+03A3 (capital alpha, sigma), but the sigma of the
  query stands at the end of a word and lower-cases to the final sigma U+03C2, while the
  sigma of the line stands inside a word and lower-cases to U+03C3. The exact search
  matches the line; the lower-cased search does not.
\<close>

theorem case_sensitive_match_counterexample:
  "matching_indices [0x0391, 0x03A3, 0x0391] [0x0391, 0x03A3] False = [0]
   \<and> matching_indices [0x0391, 0x03A3, 0x0391] [0x0391, 0x03A3] True = []
   \<and> search [0x0391, 0x03A3, 0x0391] [0x0391, 0x03A3] False = [[0x0391, 0x03A3, 0x0391]]
   \<and> search [0x0391, 0x03A3, 0x0391] [0x0391, 0x03A3] True = []"
  by code_simp

end
